theory Spec2Isabelle
  imports Complex_Main
begin

section \<open>Events\<close>

text \<open>
  An event is the tuple \<open>(mode, offset, size)\<close> that \<open>parse_events\<close> builds: the mode is
  the one-character string \<open>+\<close> or \<open>-\<close>, offset and size are Python integers (unbounded,
  possibly negative).
\<close>

type_synonym event = "string \<times> int \<times> int"

definition ev_mode :: "event \<Rightarrow> string" where
  "ev_mode e = fst e"

definition ev_offset :: "event \<Rightarrow> int" where
  "ev_offset e = fst (snd e)"

definition ev_size :: "event \<Rightarrow> int" where
  "ev_size e = snd (snd e)"

section \<open>parse_events\<close>

text \<open>
  \<open>parse_events\<close> is \<open>re.findall\<close> with the pattern
  \<^verbatim>\<open>^([+-]) (-?\d+) (-?\d+)$\<close> under \<open>re.MULTILINE\<close>, followed by \<open>int\<close> on the
  second and third group. The text is a list of characters; the only line terminator
  the \<open>re\<close> module knows for \<open>^\<close> and \<open>$\<close> is the line feed.
\<close>

definition newline :: char where
  "newline = CHR 0x0A"

definition is_digit :: "char \<Rightarrow> bool" where
  \<comment> \<open>\<open>\d\<close> on the characters of this model.\<close>
  "is_digit c = (c \<in> set ''0123456789'')"

definition match_int :: "string \<Rightarrow> (string \<times> string) option" where
  \<comment> \<open>\<open>-?\d+\<close> at the head of the text: the matched literal and the text after it.
      The digits are taken greedily; giving one back never helps, since what follows
      in the pattern (a space, or the end of the line) is not a digit.\<close>
  "match_int s =
     (let (sign, r) = (case s of c # r \<Rightarrow> if c = CHR ''-'' then (''-'', r) else ([], s)
                       | [] \<Rightarrow> ([], s));
          ds = takeWhile is_digit r
      in if ds = [] then None else Some (sign @ ds, dropWhile is_digit r))"

definition match_here :: "string \<Rightarrow> ((string \<times> string \<times> string) \<times> string) option" where
  \<comment> \<open>The pattern after its \<open>^\<close>, tried at the head of the text: the three groups and
      the text after the match. \<open>$\<close> holds at the end of the text and before a line feed.\<close>
  "match_here s =
     (case s of
        c # sp # r1 \<Rightarrow>
          if (c = CHR ''+'' \<or> c = CHR ''-'') \<and> sp = CHR '' '' then
            (case match_int r1 of
               Some (offset, sp2 # r2) \<Rightarrow>
                 if sp2 = CHR '' '' then
                   (case match_int r2 of
                      Some (sz, r3) \<Rightarrow>
                        if r3 = [] \<or> hd r3 = newline then Some (([c], offset, sz), r3)
                        else None
                    | None \<Rightarrow> None)
                 else None
             | _ \<Rightarrow> None)
          else None
      | _ \<Rightarrow> None)"

lemma match_int_shorter:
  "match_int s = Some (lit, r) \<Longrightarrow> length r \<le> length s"
  by (auto simp: match_int_def Let_def length_dropWhile_le le_SucI
           split: list.splits if_splits)

lemma match_here_shorter:
  assumes "match_here s = Some (g, r)"
  shows "length r < length s"
proof -
  from assms obtain c sp r1 offset sp2 r2 sz where
    s: "s = c # sp # r1" and
    m1: "match_int r1 = Some (offset, sp2 # r2)" and
    m2: "match_int r2 = Some (sz, r)"
    by (auto simp: match_here_def split: list.splits if_splits option.splits)
  from match_int_shorter [OF m1] match_int_shorter [OF m2] show ?thesis
    by (simp add: s)
qed

function re_findall :: "bool \<Rightarrow> string \<Rightarrow> (string \<times> string \<times> string) list" where
  \<comment> \<open>The scan of \<open>re.findall\<close>, left to right. The flag says whether \<open>^\<close> holds at the
      current position (start of the text, or just after a line feed). After a match the
      scan goes on where the match ended, which is not the start of a line.\<close>
  "re_findall bol [] = []"
| "re_findall bol (c # cs) =
     (if bol then
        (case match_here (c # cs) of
           Some (g, rest) \<Rightarrow> g # re_findall False rest
         | None \<Rightarrow> re_findall (c = newline) cs)
      else re_findall (c = newline) cs)"
  by pat_completeness auto
termination
  by (relation "measure (\<lambda>(bol, s). length s)") (auto dest: match_here_shorter)

definition digit_val :: "char \<Rightarrow> int" where
  "digit_val c = int (of_char c) - 48"

definition py_int :: "string \<Rightarrow> int" where
  \<comment> \<open>\<open>int(s)\<close> on a literal that matched \<open>-?\d+\<close>.\<close>
  "py_int s =
     (case s of
        c # ds \<Rightarrow> if c = CHR ''-'' then - foldl (\<lambda>a d. 10 * a + digit_val d) 0 ds
                  else foldl (\<lambda>a d. 10 * a + digit_val d) 0 s
      | [] \<Rightarrow> 0)"

definition parse_events :: "string \<Rightarrow> event list" where
  "parse_events replay_file_contents =
     map (\<lambda>(mode, offset, sz). (mode, py_int offset, py_int sz))
         (re_findall True replay_file_contents)"

section \<open>The line format, as specified\<close>


definition is_int_literal :: "string \<Rightarrow> bool" where
  "is_int_literal s =
     (case s of
        c # ds \<Rightarrow> if c = CHR ''-'' then ds \<noteq> [] \<and> list_all is_digit ds
                  else list_all is_digit s
      | [] \<Rightarrow> False)"




section \<open>calc_bounds\<close>

text \<open>
  \<open>calc_bounds\<close> starts from the float sentinels \<open>float("inf")\<close> and \<open>float("-inf")\<close>
  and replaces them by integers while it scans the events. A bound is therefore either
  one of the two infinities or an integer; Python compares an integer with an infinity
  exactly.
\<close>

datatype bound = NegInf | Fin int | PosInf

fun int_lt_bound :: "int \<Rightarrow> bound \<Rightarrow> bool" where
  "int_lt_bound x NegInf = False"
| "int_lt_bound x (Fin y) = (x < y)"
| "int_lt_bound x PosInf = True"

fun int_gt_bound :: "int \<Rightarrow> bound \<Rightarrow> bool" where
  "int_gt_bound x NegInf = True"
| "int_gt_bound x (Fin y) = (x > y)"
| "int_gt_bound x PosInf = False"

fun calc_bounds_step :: "bound \<times> bound \<Rightarrow> event \<Rightarrow> bound \<times> bound" where
  "calc_bounds_step (min_offset, max_offset) (mode, offset, sz) =
     (let min_offset' = (if int_lt_bound offset min_offset then Fin offset else min_offset);
          max_offset' = (if int_gt_bound (offset + sz) max_offset
                         then Fin (offset + sz) else max_offset)
      in (min_offset', max_offset'))"

definition calc_bounds :: "event list \<Rightarrow> bound \<times> bound" where
  "calc_bounds events = foldl calc_bounds_step (PosInf, NegInf) events"

section \<open>Grid layout\<close>

text \<open>
  The exceptions a run can end with: \<open>ceil\<close> of the complex number that \<open>**0.5\<close> gives
  for a negative size is a \<open>TypeError\<close>; \<open>ceil\<close> of a float infinity is an
  \<open>OverflowError\<close>.
\<close>

datatype error = TypeError | OverflowError

text \<open>
  The float operations \<open>allocations_size**0.5\<close> and \<open>allocations_size/width\<close> are read as
  the exact real operations; \<open>int(ceil(x))\<close> is the ceiling.
\<close>

definition ceil_sqrt :: "nat \<Rightarrow> nat" where
  "ceil_sqrt n = nat \<lceil>sqrt (real n)\<rceil>"

definition py_ceil_div :: "int \<Rightarrow> int \<Rightarrow> int" where
  "py_ceil_div a b = \<lceil>real_of_int a / real_of_int b\<rceil>"

definition width :: "int \<Rightarrow> error + int" where
  "width allocations_size =
     (if allocations_size < 0 then Inl TypeError
      else Inr (max 32 (int (ceil_sqrt (nat allocations_size)))))"

definition height :: "int \<Rightarrow> int \<Rightarrow> int" where
  "height allocations_size w = py_ceil_div allocations_size w"

definition padding_pixels :: "int \<Rightarrow> int \<Rightarrow> int \<Rightarrow> int" where
  "padding_pixels allocations_size w h = (w * h) - allocations_size"

definition cell_size :: "int \<Rightarrow> int" where
  "cell_size w = max 1 (min 10 (2048 div w))"

section \<open>The occupancy array\<close>

text \<open>
  \<open>allocated_dma\<close> is the flat view of the \<open>height \<times> width\<close> array of counters: a list
  of \<open>width * height\<close> integers, the padding cells included. An event adds its delta to a
  slice of it. A slice \<open>a[start:stop]\<close> never raises: a negative index counts from the
  end of the array, and both indices are clipped to the array.
\<close>

definition slice_index :: "nat \<Rightarrow> int \<Rightarrow> nat" where
  "slice_index len i = nat (if i < 0 then max 0 (i + int len) else min i (int len))"

definition slice_indices :: "nat \<Rightarrow> int \<Rightarrow> int \<Rightarrow> nat set" where
  \<comment> \<open>The positions \<open>a[start:stop]\<close> selects in an array of the given length.\<close>
  "slice_indices len start stop = {slice_index len start ..< slice_index len stop}"

definition slice_add :: "int list \<Rightarrow> int \<Rightarrow> int \<Rightarrow> int \<Rightarrow> int list" where
  \<comment> \<open>\<open>a[start:stop] += d\<close>\<close>
  "slice_add a start stop d =
     map (\<lambda>k. if slice_index (length a) start \<le> k \<and> k < slice_index (length a) stop
              then a ! k + d else a ! k)
         [0..<length a]"

definition apply_event :: "int \<Rightarrow> int list \<Rightarrow> event \<Rightarrow> int list" where
  \<comment> \<open>Line 87; the first argument is \<open>bounds[0]\<close>.\<close>
  "apply_event min_offset allocated_dma e =
     (case e of (mode, offset, sz) \<Rightarrow>
        slice_add allocated_dma (offset - min_offset) (offset + sz - min_offset)
                  (if mode = ''+'' then 1 else - 1))"

section \<open>Rendering one frame\<close>

type_synonym colour = "nat \<times> nat \<times> nat"

definition background :: nat where
  "background = 190"

definition used_colour :: colour where
  "used_colour = (25, 25, 127)"

definition free_colour :: colour where
  "free_colour = (24, 190, 24)"

definition invalid_colour :: colour where
  "invalid_colour = (255, 0, 0)"

definition is_free :: "int list \<Rightarrow> bool list" where
  "is_free allocated = map (\<lambda>c. c = 1) allocated"

definition invalid :: "int list \<Rightarrow> bool list" where
  "invalid allocated = map (\<lambda>c. c < 0 \<or> c > 1) allocated"

definition mask_assign :: "bool list \<Rightarrow> colour \<Rightarrow> colour list \<Rightarrow> colour list" where
  \<comment> \<open>\<open>image[mask] = col\<close>\<close>
  "mask_assign msk col img = map (\<lambda>(m, c). if m then col else c) (zip msk img)"

definition fill_padding :: "int \<Rightarrow> colour list \<Rightarrow> colour list" where
  \<comment> \<open>\<open>image.ravel()[-3*padding:] = background\<close>, when the padding is not 0. The slice
      is over the colour channels, three per cell; in cells it starts at \<open>-padding\<close>.\<close>
  "fill_padding padding img =
     (if padding \<noteq> 0 then
        map (\<lambda>k. if slice_index (length img) (- padding) \<le> k
                 then (background, background, background) else img ! k)
            [0..<length img]
      else img)"

definition render_cells :: "int \<Rightarrow> int list \<Rightarrow> colour list" where
  \<comment> \<open>Lines 89 to 97: the image before it is magnified, one colour per cell, row by row.\<close>
  "render_cells padding allocated =
     mask_assign (invalid allocated) invalid_colour
       (mask_assign (is_free allocated) free_colour
          (fill_padding padding (replicate (length allocated) used_colour)))"

text \<open>
  \<open>is_free.sum() / allocations_size\<close> divides a numpy integer by a Python integer:
  numpy's true division. On a zero divisor it does not raise; it warns and gives
  \<open>nan\<close> for \<open>0/0\<close> and an infinity otherwise. A finite quotient is kept as a rational.
\<close>

datatype npfloat = Finite rat | NaN | PosInfinity | NegInfinity

definition np_true_divide :: "int \<Rightarrow> int \<Rightarrow> npfloat" where
  "np_true_divide a b =
     (if b = 0 then (if a = 0 then NaN else if a > 0 then PosInfinity else NegInfinity)
      else Finite (of_int a / of_int b))"

definition is_free_sum :: "int list \<Rightarrow> int" where
  \<comment> \<open>\<open>is_free.sum()\<close>\<close>
  "is_free_sum allocated = int (length (filter id (is_free allocated)))"

subsection \<open>Text fields\<close>

definition digit_char :: "nat \<Rightarrow> char" where
  "digit_char d = ''0123456789abcdef'' ! d"

fun digits_of :: "nat \<Rightarrow> nat \<Rightarrow> string" where
  "digits_of base n =
     (if base < 2 \<or> n < base then [digit_char n]
      else digits_of base (n div base) @ [digit_char (n mod base)])"

declare digits_of.simps [simp del]

definition py_str :: "int \<Rightarrow> string" where
  \<comment> \<open>\<open>{0}\<close> on an integer: its decimal literal.\<close>
  "py_str n = (if n < 0 then ''-'' @ digits_of 10 (nat (- n)) else digits_of 10 (nat n))"

definition zero_pad :: "nat \<Rightarrow> string \<Rightarrow> string" where
  "zero_pad w s = replicate (w - length s) (CHR ''0'') @ s"

definition format_08x :: "int \<Rightarrow> string" where
  \<comment> \<open>\<open>{:08x}\<close>: lower-case hexadecimal, zero-padded to eight characters, the sign
      (if any) first and counted in the eight.\<close>
  "format_08x n =
     (if n < 0 then ''-'' @ zero_pad 7 (digits_of 16 (nat (- n)))
      else zero_pad 8 (digits_of 16 (nat n)))"

definition idx_text :: "nat \<Rightarrow> string" where
  "idx_text idx = ''Event ID: '' @ py_str (int idx)"

definition operation_text :: "event \<Rightarrow> string" where
  "operation_text e =
     (case e of (mode, offset, sz) \<Rightarrow>
        (if mode = ''+'' then ''free '' else ''alloc'')
        @ '' 0x'' @ format_08x offset @ '' : '' @ py_str sz)"

subsection \<open>The frame\<close>

text \<open>
  A frame keeps what the canvas is drawn from: the cell colours (each cell is then
  replicated to a \<open>cell_size \<times> cell_size\<close> block), the canvas size, and the three texts.
  The free fraction is kept as the number that \<open>{0:.2%}\<close> prints.
\<close>

record frame =
  cells :: "colour list"
  canvas_size :: "int \<times> int"
  event_id_text :: string
  percent_free :: npfloat
  description_text :: string

definition render_frame ::
  "int \<Rightarrow> int \<Rightarrow> int \<Rightarrow> nat \<Rightarrow> int list \<Rightarrow> event \<Rightarrow> frame" where
  "render_frame allocations_size w h idx allocated e =
     (let margin = 10; text_height = 10; text_margin = 2 in
      \<lparr> cells = render_cells (padding_pixels allocations_size w h) allocated,
        canvas_size = (w * cell_size w + margin * 2,
                       h * cell_size w + margin * 3 + text_height * 3 + text_margin * 2),
        event_id_text = idx_text idx,
        percent_free = np_true_divide (is_free_sum allocated) allocations_size,
        description_text = operation_text e \<rparr>)"

section \<open>replay_iterate\<close>

fun frames_loop ::
  "int \<Rightarrow> int \<Rightarrow> int \<Rightarrow> int \<Rightarrow> nat \<Rightarrow> int list \<Rightarrow> event list \<Rightarrow> frame list" where
  \<comment> \<open>The \<open>for\<close> loop of lines 85 to 169, from event number \<open>idx\<close> on; the frames it
      yields, in order.\<close>
  "frames_loop min_offset allocations_size w h idx allocated [] = []"
| "frames_loop min_offset allocations_size w h idx allocated (e # es) =
     (let allocated' = apply_event min_offset allocated e
      in render_frame allocations_size w h idx allocated' e
         # frames_loop min_offset allocations_size w h (Suc idx) allocated' es)"

definition replay_events :: "event list \<Rightarrow> error + frame list" where
  \<comment> \<open>\<open>replay_iterate\<close> from line 59 on. The generator is modelled by the list of the
      frames it yields, or by the exception it ends with.\<close>
  "replay_events events =
     (if events = [] then Inr []
      else
        (case calc_bounds events of
           (Fin b0, Fin b1) \<Rightarrow>
             (let allocations_size = b1 - b0 in
              case width allocations_size of
                Inl err \<Rightarrow> Inl err
              | Inr w \<Rightarrow>
                  (let h = height allocations_size w
                   in Inr (frames_loop b0 allocations_size w h 0
                             (replicate (nat (h * w)) 0) events)))
         | _ \<Rightarrow> Inl OverflowError))"

definition replay_iterate :: "string \<Rightarrow> error + frame list" where
  "replay_iterate replay_file_contents = replay_events (parse_events replay_file_contents)"

section \<open>Reading the texts back\<close>

text \<open>
  Reading a hexadecimal text back, as \<open>int(s, 16)\<close> does on lower-case digits; used to
  say what the text of \<open>format_08x\<close> denotes.
\<close>

definition hex_digit_val :: "char \<Rightarrow> nat" where
  "hex_digit_val c = (if is_digit c then of_char c - 48 else of_char c - 87)"

definition hex_value :: "string \<Rightarrow> nat" where
  "hex_value s = foldl (\<lambda>a c. 16 * a + hex_digit_val c) 0 s"

section \<open>Observing a run\<close>

text \<open>
  The quantities of one run that the properties below speak about: the size of the
  address range, the first address, the number of cells of the grid, and the occupancy
  array as it stands when frame \<open>k\<close> is rendered, that is after the events \<open>0, \<dots>, k\<close>
  have been applied to the zero array.
\<close>

definition min_offset_of :: "event list \<Rightarrow> int" where
  "min_offset_of events = (case calc_bounds events of (Fin b0, b1) \<Rightarrow> b0 | _ \<Rightarrow> 0)"

definition allocations_size_of :: "event list \<Rightarrow> int" where
  "allocations_size_of events =
     (case calc_bounds events of (Fin b0, Fin b1) \<Rightarrow> b1 - b0 | _ \<Rightarrow> 0)"

definition grid_cells :: "event list \<Rightarrow> nat" where
  "grid_cells events =
     (case width (allocations_size_of events) of
        Inr w \<Rightarrow> nat (height (allocations_size_of events) w * w)
      | Inl err \<Rightarrow> 0)"

definition counters_after :: "event list \<Rightarrow> nat \<Rightarrow> int list" where
  "counters_after events k =
     foldl (apply_event (min_offset_of events)) (replicate (grid_cells events) 0)
           (take (Suc k) events)"

definition frames_of :: "error + frame list \<Rightarrow> frame list" where
  "frames_of r = (case r of Inr frames \<Rightarrow> frames | Inl err \<Rightarrow> [])"

section \<open>Evaluating the layout\<close>

text \<open>
  The ceiling of a square root and of a quotient of integers are integer computations;
  the two equations below let the layout be evaluated on concrete sizes.
\<close>

function sqrt_search :: "nat \<Rightarrow> nat \<Rightarrow> nat" where
  "sqrt_search k n = (if n \<le> k * k then k else sqrt_search (Suc k) n)"
  by pat_completeness auto
termination
proof (relation "measure (\<lambda>(k, n). n - k)")
  show "wf (measure (\<lambda>(k, n). n - k))" by simp
next
  fix k n :: nat
  assume "\<not> n \<le> k * k"
  then have "k * k < n" by simp
  moreover have "k \<le> k * k" by (cases k) simp_all
  ultimately have "k < n" by linarith
  then show "((Suc k, n), (k, n)) \<in> measure (\<lambda>(k, n). n - k)" by simp
qed

declare sqrt_search.simps [simp del]

section \<open>The scan of the pattern goes line by line\<close>

lemma not_digit_newline [simp]: "\<not> is_digit newline"
  by (simp add: is_digit_def newline_def)

lemma newline_neq [simp]:
  "newline \<noteq> CHR ''-''" "newline \<noteq> CHR ''+''" "newline \<noteq> CHR '' ''"
  "CHR ''-'' \<noteq> newline" "CHR ''+'' \<noteq> newline" "CHR '' '' \<noteq> newline"
  by (simp_all add: newline_def)

lemma not_digit_signs [simp]:
  "\<not> is_digit CHR ''-''" "\<not> is_digit CHR ''+''" "\<not> is_digit CHR '' ''"
  by (simp_all add: is_digit_def)











section \<open>The pattern on one line\<close>

lemma is_int_literal_digits:
  "ds \<noteq> [] \<Longrightarrow> list_all is_digit ds \<Longrightarrow> is_int_literal ds"
  "ds \<noteq> [] \<Longrightarrow> list_all is_digit ds \<Longrightarrow> is_int_literal (CHR ''-'' # ds)"
  by (cases ds; auto simp: is_int_literal_def)+
















section \<open>Properties of calc_bounds\<close>

lemma calc_bounds_fold_Fin:
  "foldl calc_bounds_step (Fin a, Fin b) es =
     (Fin (fold min (map ev_offset es) a),
      Fin (fold max (map (\<lambda>e. ev_offset e + ev_size e) es) b))"
proof (induction es arbitrary: a b)
  case Nil
  show ?case by simp
next
  case (Cons e es)
  obtain m off sz where e: "e = (m, off, sz)" by (cases e) auto
  have step: "calc_bounds_step (Fin a, Fin b) e = (Fin (min off a), Fin (max (off + sz) b))"
    by (simp add: e min_def max_def)
  show ?case
    by (simp add: step Cons.IH) (simp add: e ev_offset_def ev_size_def)
qed

lemma calc_bounds_Cons:
  "calc_bounds (e # es) =
     (Fin (fold min (map ev_offset es) (ev_offset e)),
      Fin (fold max (map (\<lambda>e. ev_offset e + ev_size e) es) (ev_offset e + ev_size e)))"
proof -
  obtain m off sz where e: "e = (m, off, sz)" by (cases e) auto
  have "calc_bounds_step (PosInf, NegInf) e = (Fin off, Fin (off + sz))"
    by (simp add: e)
  then show ?thesis
    by (simp add: calc_bounds_def calc_bounds_fold_Fin) (simp add: e ev_offset_def ev_size_def)
qed

lemma calc_bounds_Min_Max:
  assumes "events \<noteq> []"
  shows "calc_bounds events =
           (Fin (Min (set (map ev_offset events))),
            Fin (Max (set (map (\<lambda>e. ev_offset e + ev_size e) events))))"
proof -
  obtain e es where ev: "events = e # es" using assms by (cases events) auto
  have mn: "Min (set (map ev_offset (e # es))) = fold min (map ev_offset es) (ev_offset e)"
    using Min.set_eq_fold [of "ev_offset e" "map ev_offset es"] by simp
  have mx: "Max (set (map (\<lambda>e. ev_offset e + ev_size e) (e # es))) =
              fold max (map (\<lambda>e. ev_offset e + ev_size e) es) (ev_offset e + ev_size e)"
    using Max.set_eq_fold [of "ev_offset e + ev_size e" "map (\<lambda>e. ev_offset e + ev_size e) es"]
    by simp
  show ?thesis unfolding ev mn mx by (rule calc_bounds_Cons)
qed

text \<open>
  C7. For every non-empty event sequence, \<open>calc_bounds\<close> returns the minimum offset and the
  maximum of offset + size over all events; for the events \<open>(+,0,10), (+,20,5)\<close> the bounds
  are 0 and 25.
\<close>

theorem calc_bounds_correct:
  "(\<forall>events. events \<noteq> [] \<longrightarrow>
      calc_bounds events =
        (Fin (Min (set (map ev_offset events))),
         Fin (Max (set (map (\<lambda>e. ev_offset e + ev_size e) events)))))
   \<and> calc_bounds [(''+'', 0, 10), (''+'', 20, 5)] = (Fin 0, Fin 25)"
proof (intro conjI allI impI)
  fix events :: "event list"
  assume "events \<noteq> []"
  then show "calc_bounds events =
        (Fin (Min (set (map ev_offset events))),
         Fin (Max (set (map (\<lambda>e. ev_offset e + ev_size e) events))))"
    by (rule calc_bounds_Min_Max)
next
  show "calc_bounds [(''+'', 0, 10), (''+'', 20, 5)] = (Fin 0, Fin 25)"
    by (simp add: calc_bounds_def)
qed

theorem calc_bounds_correct_witness:
  "[(''-'', 7, 3), (''+'', -4, 2), (''+'', 5, 9)] \<noteq> ([] :: event list)
   \<and> calc_bounds [(''-'', 7, 3), (''+'', -4, 2), (''+'', 5, 9)] = (Fin (-4), Fin 14)"
proof -
  have "calc_bounds [(''-'', 7, 3), (''+'', -4, 2), (''+'', 5, 9)] =
        (Fin (Min (set (map ev_offset [(''-'', 7, 3), (''+'', -4, 2), (''+'', 5, 9)]))),
         Fin (Max (set (map (\<lambda>e. ev_offset e + ev_size e)
                         [(''-'', 7, 3), (''+'', -4, 2), (''+'', 5, 9)]))))"
    using calc_bounds_correct by blast
  then show ?thesis by (simp add: ev_offset_def ev_size_def)
qed

section \<open>Properties of the grid layout\<close>

lemma py_ceil_div_code [code]: "py_ceil_div a b = - ((- a) div b)"
  unfolding py_ceil_div_def by (simp add: ceiling_divide_eq_div)

lemma ceil_sqrt_unique:
  assumes "n \<le> r * r" and "r = 0 \<or> (r - 1) * (r - 1) < n"
  shows "ceil_sqrt n = r"
proof -
  have up: "sqrt (real n) \<le> real r"
  proof -
    have "real n \<le> (real r)\<^sup>2" using assms(1)
      by (metis of_nat_le_iff of_nat_mult power2_eq_square)
    then show ?thesis by (simp add: real_le_lsqrt)
  qed
  have lo: "real r - 1 < sqrt (real n)"
  proof (cases "r = 0")
    case True
    then show ?thesis by (simp add: less_le_trans [of _ 0])
  next
    case False
    with assms(2) have "(r - 1) * (r - 1) < n" by simp
    then have "(real (r - 1))\<^sup>2 < real n"
      by (metis of_nat_less_iff of_nat_mult power2_eq_square)
    then have "real (r - 1) < sqrt (real n)"
      by (simp add: real_less_rsqrt)
    with False show ?thesis by (simp add: of_nat_diff)
  qed
  have "\<lceil>sqrt (real n)\<rceil> = int r"
    by (rule ceiling_unique) (use up lo in simp_all)
  then show ?thesis by (simp add: ceil_sqrt_def)
qed

lemma sqrt_search_spec:
  "k = 0 \<or> (k - 1) * (k - 1) < n \<Longrightarrow>
   n \<le> sqrt_search k n * sqrt_search k n \<and>
   (sqrt_search k n = 0 \<or> (sqrt_search k n - 1) * (sqrt_search k n - 1) < n)"
proof (induction k n rule: sqrt_search.induct)
  case (1 k n)
  show ?case
  proof (cases "n \<le> k * k")
    case True
    with "1.prems" show ?thesis by (subst (1 2 3 4 5) sqrt_search.simps) simp
  next
    case False
    then have "Suc k = 0 \<or> (Suc k - 1) * (Suc k - 1) < n" by simp
    from "1.IH" [OF False this] False show ?thesis
      by (subst (1 2 3 4 5) sqrt_search.simps) simp
  qed
qed

lemma ceil_sqrt_code [code]: "ceil_sqrt n = sqrt_search 0 n"
  using sqrt_search_spec [of 0 n] by (intro ceil_sqrt_unique) simp_all

lemma ceil_sqrt_int:
  assumes "0 \<le> n"
  shows "int (ceil_sqrt (nat n)) = \<lceil>sqrt (real_of_int n)\<rceil>"
proof -
  have "real (nat n) = real_of_int n" using assms by simp
  moreover have "0 \<le> \<lceil>sqrt (real_of_int n)\<rceil>"
    using assms by (simp add: ceiling_le_iff less_le_trans [of _ 0])
  ultimately show ?thesis by (simp add: ceil_sqrt_def)
qed

lemma width_Inr:
  "0 \<le> n \<Longrightarrow> width n = Inr (max 32 \<lceil>sqrt (real_of_int n)\<rceil>)"
  by (simp add: width_def ceil_sqrt_int)

lemma width_ge_32: "width n = Inr w \<Longrightarrow> 32 \<le> w"
  by (auto simp: width_def split: if_splits)

lemma width_nonneg: "width n = Inr w \<Longrightarrow> 0 \<le> n"
  by (auto simp: width_def split: if_splits)

lemma width_height_covers:
  assumes "0 < w"
  shows "n \<le> w * height n w"
proof -
  have "real_of_int n / real_of_int w \<le> real_of_int (height n w)"
    by (simp add: height_def py_ceil_div_def)
  then have "real_of_int n \<le> real_of_int (height n w) * real_of_int w"
    using assms by (simp add: pos_divide_le_eq)
  then have "real_of_int n \<le> real_of_int (w * height n w)"
    by (simp add: mult.commute)
  then show ?thesis by (simp only: of_int_le_iff)
qed

lemma height_nonneg:
  assumes "0 \<le> n" and "0 < w"
  shows "0 \<le> height n w"
proof -
  have "0 \<le> real_of_int n / real_of_int w" using assms by simp
  then have "0 \<le> \<lceil>real_of_int n / real_of_int w\<rceil>"
    by (simp add: ceiling_le_iff less_le_trans [of _ 0] less_ceiling_iff)
  then show ?thesis by (simp add: height_def py_ceil_div_def)
qed

lemma width_small:
  assumes "0 \<le> n" and "n \<le> 1024"
  shows "width n = Inr 32"
proof -
  have "sqrt (real_of_int n) \<le> 32"
  proof -
    have "real_of_int n \<le> 32\<^sup>2" using assms(2) by simp
    then show ?thesis by (simp add: real_le_lsqrt)
  qed
  then have "\<lceil>sqrt (real_of_int n)\<rceil> \<le> 32" by (simp add: ceiling_le_iff)
  then show ?thesis using assms(1) by (simp add: width_Inr)
qed



section \<open>Properties of the occupancy array\<close>

lemma length_slice_add [simp]: "length (slice_add a start stop d) = length a"
  by (simp add: slice_add_def)

lemma nth_slice_add:
  "k < length a \<Longrightarrow>
   slice_add a start stop d ! k =
     (if slice_index (length a) start \<le> k \<and> k < slice_index (length a) stop
      then a ! k + d else a ! k)"
  by (simp add: slice_add_def)

lemma length_apply_event [simp]: "length (apply_event b a e) = length a"
  by (simp add: apply_event_def split: prod.splits)

lemma length_foldl_apply_event [simp]:
  "length (foldl (apply_event b) a es) = length a"
  by (induction es arbitrary: a) simp_all

lemma slice_add_inverse: "slice_add (slice_add a start stop d) start stop (- d) = a"
  by (rule nth_equalityI) (simp_all add: nth_slice_add)

text \<open>
  C9. Applying an Alloc event \<open>(+, o, s)\<close> and then the Free event \<open>(-, o, s)\<close> restores
  every counter to the value it had before the Alloc was applied.
\<close>

theorem alloc_then_free_restores:
  "apply_event min_offset (apply_event min_offset allocated (''+'', off, sz)) (''-'', off, sz)
     = allocated"
  using slice_add_inverse [of allocated "off - min_offset" "off + sz - min_offset" 1]
  by (simp add: apply_event_def)

section \<open>Properties of the event loop\<close>

lemma calc_bounds_nonempty:
  assumes "events \<noteq> []"
  shows "calc_bounds events =
           (Fin (min_offset_of events), Fin (min_offset_of events + allocations_size_of events))"
  using calc_bounds_Min_Max [OF assms]
  by (simp add: min_offset_of_def allocations_size_of_def)

lemma length_frames_loop [simp]:
  "length (frames_loop b n w h idx a es) = length es"
  by (induction es arbitrary: idx a) (simp_all add: Let_def)

lemma frames_loop_nth:
  "k < length es \<Longrightarrow>
   frames_loop b n w h idx a es ! k =
     render_frame n w h (idx + k) (foldl (apply_event b) a (take (Suc k) es)) (es ! k)"
proof (induction es arbitrary: idx a k)
  case Nil
  then show ?case by simp
next
  case (Cons e es)
  show ?case
  proof (cases k)
    case 0
    then show ?thesis by (simp add: Let_def)
  next
    case (Suc k')
    with Cons.prems have "k' < length es" by simp
    from Cons.IH [OF this, of "Suc idx" "apply_event b a e"] Suc
    show ?thesis by (simp add: Let_def)
  qed
qed

lemma replay_events_nonempty:
  assumes "events \<noteq> []"
  shows "replay_events events =
           (case width (allocations_size_of events) of
              Inl err \<Rightarrow> Inl err
            | Inr w \<Rightarrow>
                Inr (frames_loop (min_offset_of events) (allocations_size_of events) w
                       (height (allocations_size_of events) w) 0
                       (replicate (grid_cells events) 0) events))"
  using assms
  by (simp add: replay_events_def calc_bounds_nonempty [OF assms] grid_cells_def Let_def
           split: sum.splits)

lemma replay_events_raises:
  assumes "events \<noteq> []" and "allocations_size_of events < 0"
  shows "replay_events events = Inl TypeError"
  using assms(2) by (simp add: replay_events_nonempty [OF assms(1)] width_def)

lemma replay_events_frames:
  assumes "0 \<le> allocations_size_of events"
  shows "\<exists>w. width (allocations_size_of events) = Inr w \<and>
             replay_events events =
               Inr (frames_loop (min_offset_of events) (allocations_size_of events) w
                      (height (allocations_size_of events) w) 0
                      (replicate (grid_cells events) 0) events)"
proof (cases "events = []")
  case True
  then show ?thesis using assms by (simp add: replay_events_def width_def)
next
  case False
  from assms obtain w where w: "width (allocations_size_of events) = Inr w"
    by (auto simp: width_def)
  then show ?thesis by (simp add: replay_events_nonempty [OF False])
qed

lemma replay_events_Inr_nonneg:
  assumes "replay_events events = Inr frames"
  shows "0 \<le> allocations_size_of events"
proof (cases "events = []")
  case True
  then show ?thesis by (simp add: allocations_size_of_def calc_bounds_def)
next
  case False
  show ?thesis
  proof (rule ccontr)
    assume "\<not> 0 \<le> allocations_size_of events"
    then have "replay_events events = Inl TypeError"
      using replay_events_raises [OF False] by simp
    with assms show False by simp
  qed
qed

lemma replay_events_nth:
  assumes "replay_events events = Inr frames"
  shows "length frames = length events"
    and "k < length events \<Longrightarrow>
         \<exists>w. width (allocations_size_of events) = Inr w \<and>
             frames ! k =
               render_frame (allocations_size_of events) w
                 (height (allocations_size_of events) w) k
                 (counters_after events k) (events ! k)"
proof -
  from replay_events_frames [OF replay_events_Inr_nonneg [OF assms]] assms
  obtain w where w: "width (allocations_size_of events) = Inr w"
    and fr: "frames = frames_loop (min_offset_of events) (allocations_size_of events) w
                      (height (allocations_size_of events) w) 0
                      (replicate (grid_cells events) 0) events"
    by auto
  show "length frames = length events" by (simp add: fr)
  show "\<exists>w. width (allocations_size_of events) = Inr w \<and>
             frames ! k =
               render_frame (allocations_size_of events) w
                 (height (allocations_size_of events) w) k
                 (counters_after events k) (events ! k)"
    if "k < length events"
    using that w by (simp add: fr frames_loop_nth counters_after_def)
qed

lemma length_counters_after [simp]:
  "length (counters_after events k) = grid_cells events"
  by (simp add: counters_after_def)

lemma grid_cells_eq:
  assumes "width (allocations_size_of events) = Inr w"
  shows "int (grid_cells events) = w * height (allocations_size_of events) w"
    and "allocations_size_of events \<le> int (grid_cells events)"
proof -
  have w: "32 \<le> w" and n: "0 \<le> allocations_size_of events"
    using assms by (rule width_ge_32, rule width_nonneg)
  then have "0 \<le> height (allocations_size_of events) w"
    by (intro height_nonneg) simp_all
  with w have "0 \<le> height (allocations_size_of events) w * w" by simp
  then show eq: "int (grid_cells events) = w * height (allocations_size_of events) w"
    by (simp add: grid_cells_def assms mult.commute)
  from w have "0 < w" by simp
  from width_height_covers [OF this] eq
  show "allocations_size_of events \<le> int (grid_cells events)" by simp
qed

section \<open>Properties of the rendering\<close>

lemma length_render_cells [simp]: "length (render_cells p a) = length a"
  by (simp add: render_cells_def mask_assign_def fill_padding_def is_free_def invalid_def)

lemma nth_render_cells:
  assumes "j < length a"
  shows "render_cells p a ! j =
           (if a ! j < 0 \<or> a ! j > 1 then invalid_colour
            else if a ! j = 1 then free_colour
            else if p \<noteq> 0 \<and> slice_index (length a) (- p) \<le> j
                 then (background, background, background)
            else used_colour)"
  using assms
  by (simp add: render_cells_def mask_assign_def fill_padding_def is_free_def invalid_def)

section \<open>The numbers in the texts\<close>

lemma digit_char_dec:
  assumes "d < 10"
  shows "is_digit (digit_char d)" and "digit_val (digit_char d) = int d"
proof -
  from assms have "d \<in> {0, 1, 2, 3, 4, 5, 6, 7, 8, 9}" by (simp, arith)
  then show "is_digit (digit_char d)" and "digit_val (digit_char d) = int d"
    by (auto simp: digit_char_def is_digit_def digit_val_def)
qed

lemma digit_char_hex:
  assumes "d < 16"
  shows "hex_digit_val (digit_char d) = d"
proof -
  from assms have "d \<in> {0, 1, 2, 3, 4, 5, 6, 7, 8, 9, 10, 11, 12, 13, 14, 15}"
    by (simp, arith)
  then show ?thesis
    by (auto simp: digit_char_def is_digit_def hex_digit_val_def)
qed

lemma digits_of_nonempty: "digits_of base n \<noteq> []"
  by (subst digits_of.simps) simp

lemma digits_of_dec_digits: "list_all is_digit (digits_of 10 n)"
proof (induction "10 :: nat" n rule: digits_of.induct)
  case (1 n)
  show ?case
  proof (cases "n < 10")
    case True
    then show ?thesis by (subst digits_of.simps) (simp add: digit_char_dec)
  next
    case False
    with 1 show ?thesis by (subst digits_of.simps) (simp add: digit_char_dec)
  qed
qed

lemma digits_of_dec_value:
  "foldl (\<lambda>a d. 10 * a + digit_val d) 0 (digits_of 10 n) = int n"
proof (induction "10 :: nat" n rule: digits_of.induct)
  case (1 n)
  show ?case
  proof (cases "n < 10")
    case True
    then show ?thesis by (subst digits_of.simps) (simp add: digit_char_dec)
  next
    case False
    with 1 have "foldl (\<lambda>a d. 10 * a + digit_val d) 0 (digits_of 10 (n div 10)) = int (n div 10)"
      by simp
    with False show ?thesis
      by (subst digits_of.simps) (simp add: digit_char_dec zdiv_int zmod_int)
  qed
qed

lemma py_str_literal: "is_int_literal (py_str n)"
proof -
  have "is_int_literal (digits_of 10 m)" for m
    by (rule is_int_literal_digits(1) [OF digits_of_nonempty digits_of_dec_digits])
  moreover have "is_int_literal (CHR ''-'' # digits_of 10 m)" for m
    by (rule is_int_literal_digits(2) [OF digits_of_nonempty digits_of_dec_digits])
  ultimately show ?thesis by (simp add: py_str_def)
qed

lemma py_int_py_str: "py_int (py_str n) = n"
proof (cases "n < 0")
  case True
  then show ?thesis by (simp add: py_str_def py_int_def digits_of_dec_value)
next
  case False
  obtain c cs where ds: "digits_of 10 (nat n) = c # cs"
    using digits_of_nonempty [of 10 "nat n"] by (cases "digits_of 10 (nat n)") auto
  with digits_of_dec_digits [of "nat n"] have "is_digit c" by simp
  then have "c \<noteq> CHR ''-''" by auto
  with False ds digits_of_dec_value [of "nat n"] show ?thesis
    by (simp add: py_str_def py_int_def)
qed

lemma digits_of_hex_value:
  "foldl (\<lambda>a c. 16 * a + hex_digit_val c) 0 (digits_of 16 n) = n"
proof (induction "16 :: nat" n rule: digits_of.induct)
  case (1 n)
  show ?case
  proof (cases "n < 16")
    case True
    then show ?thesis by (subst digits_of.simps) (simp add: digit_char_hex)
  next
    case False
    with 1 have "foldl (\<lambda>a c. 16 * a + hex_digit_val c) 0 (digits_of 16 (n div 16)) = n div 16"
      by simp
    with False show ?thesis
      by (subst digits_of.simps) (simp add: digit_char_hex)
  qed
qed

lemma digits_of_hex_length:
  "n < 16 ^ k \<Longrightarrow> 0 < k \<Longrightarrow> length (digits_of 16 n) \<le> k"
proof (induction "16 :: nat" n arbitrary: k rule: digits_of.induct)
  case (1 n)
  show ?case
  proof (cases "n < 16")
    case True
    with "1.prems" show ?thesis by (subst digits_of.simps) simp
  next
    case False
    from "1.prems" obtain k' where k: "k = Suc k'" by (cases k) auto
    from "1.prems"(1) have "n < 16 ^ k' * 16" unfolding k by simp
    then have lt: "n div 16 < 16 ^ k'" by (rule less_mult_imp_div_less)
    have pos: "0 < k'"
    proof (rule ccontr)
      assume "\<not> 0 < k'"
      with k "1.prems"(1) False show False by simp
    qed
    have c: "\<not> (16 < (2::nat) \<or> n < 16)" using False by simp
    from "1.hyps" [OF c lt pos] have "length (digits_of 16 (n div 16)) \<le> k'" .
    with False k show ?thesis by (subst digits_of.simps) simp
  qed
qed

lemma hex_value_zero_pad: "hex_value (zero_pad w s) = hex_value s"
proof -
  have "foldl (\<lambda>a c. 16 * a + hex_digit_val c) 0 (replicate j (CHR ''0'') @ s)
          = foldl (\<lambda>a c. 16 * a + hex_digit_val c) 0 s" for j
    by (induction j) (simp_all add: hex_digit_val_def is_digit_def)
  then show ?thesis by (simp add: hex_value_def zero_pad_def)
qed

lemma format_08x_value:
  assumes "0 \<le> n"
  shows "int (hex_value (format_08x n)) = n"
  using assms
  by (simp add: format_08x_def hex_value_zero_pad) (simp add: hex_value_def digits_of_hex_value)

lemma format_08x_length:
  assumes "0 \<le> n" and "n < 2 ^ 32"
  shows "length (format_08x n) = 8"
proof -
  have "nat n < 16 ^ 8" using assms by simp
  then have "length (digits_of 16 (nat n)) \<le> 8" by (rule digits_of_hex_length) simp
  with assms(1) show ?thesis by (simp add: format_08x_def zero_pad_def)
qed

section \<open>Colours of the grid units\<close>

lemma nonpadding_cell_colour:
  assumes w: "width n = Inr w"
    and len: "int (length a) = w * height n w"
    and j: "int j < n"
  shows "cells (render_frame n w (height n w) idx a e) ! j =
           (if a ! j = 1 then free_colour
            else if a ! j = 0 then used_colour
            else invalid_colour)"
proof -
  have "0 < w" using width_ge_32 [OF w] by simp
  from width_height_covers [OF this, of n] len have cover: "n \<le> int (length a)" by simp
  with j have jl: "j < length a" by simp
  have "\<not> slice_index (length a) (- padding_pixels n w (height n w)) \<le> j"
    if "padding_pixels n w (height n w) \<noteq> 0"
    using that cover j len by (simp add: slice_index_def padding_pixels_def)
  then show ?thesis
    using jl by (auto simp: render_frame_def Let_def nth_render_cells)
qed

text \<open>
  C1, as the code has it. In every frame, a unit of the address range (a non-padding
  unit) whose counter is \<open>c\<close> has the colour \<open>free_colour\<close> (green) if \<open>c = 1\<close>,
  \<open>used_colour\<close> (dark blue) if \<open>c = 0\<close>, and \<open>invalid_colour\<close> (red) otherwise: a
  \<open>+\<close> event records a range that became free, and the array starts all used.
\<close>

theorem unit_colour:
  assumes "replay_events events = Inr frames"
    and "k < length frames"
    and "int j < allocations_size_of events"
  shows "cells (frames ! k) ! j =
           (if counters_after events k ! j = 1 then free_colour
            else if counters_after events k ! j = 0 then used_colour
            else invalid_colour)
         \<and> free_colour = (24, 190, 24) \<and> used_colour = (25, 25, 127)
         \<and> invalid_colour = (255, 0, 0)"
proof -
  from replay_events_nth [OF assms(1)] assms(2)
  obtain w where w: "width (allocations_size_of events) = Inr w"
    and fr: "frames ! k = render_frame (allocations_size_of events) w
                 (height (allocations_size_of events) w) k
                 (counters_after events k) (events ! k)"
    by auto
  have "int (length (counters_after events k)) = w * height (allocations_size_of events) w"
    using grid_cells_eq(1) [OF w] by simp
  from nonpadding_cell_colour [OF w this assms(3)] fr
  show ?thesis by (simp add: free_colour_def used_colour_def invalid_colour_def)
qed

theorem unit_colour_witness:
  "replay_events [(''+'', 0, 10), (''+'', 4, 2), (''-'', 6, 3), (''-'', 6, 1)]
     = Inr (frames_of (replay_events [(''+'', 0, 10), (''+'', 4, 2), (''-'', 6, 3), (''-'', 6, 1)]))
   \<and> map (\<lambda>j. counters_after [(''+'', 0, 10), (''+'', 4, 2), (''-'', 6, 3), (''-'', 6, 1)] 3 ! j)
         [3, 4, 6, 7] = [1, 2, - 1, 0]
   \<and> map (\<lambda>j. cells (frames_of (replay_events
                   [(''+'', 0, 10), (''+'', 4, 2), (''-'', 6, 3), (''-'', 6, 1)]) ! 3) ! j)
         [3, 4, 6, 7] = [(24, 190, 24), (255, 0, 0), (255, 0, 0), (25, 25, 127)]"
proof -
  define events :: "event list"
    where "events = [(''+'', 0, 10), (''+'', 4, 2), (''-'', 6, 3), (''-'', 6, 1)]"
  have n: "allocations_size_of events = 10"
    by (simp add: events_def allocations_size_of_def calc_bounds_def)
  have run: "replay_events events = Inr (frames_of (replay_events events))"
    using replay_events_frames [of events] by (auto simp: n frames_of_def)
  have len: "length (frames_of (replay_events events)) = 4"
    using replay_events_nth(1) [OF run] by (simp add: events_def)
  have c: "map (\<lambda>j. counters_after events 3 ! j) [3, 4, 6, 7] = [1, 2, - 1, 0]"
    unfolding events_def by code_simp
  have col: "cells (frames_of (replay_events events) ! 3) ! j =
           (if counters_after events 3 ! j = 1 then (24, 190, 24)
            else if counters_after events 3 ! j = 0 then (25, 25, 127)
            else (255, 0, 0))" if "j < 10" for j
    using unit_colour [OF run, of 3 j] that len n by simp
  from c have "counters_after events 3 ! 3 = 1" "counters_after events 3 ! 4 = 2"
    "counters_after events 3 ! 6 = - 1" "counters_after events 3 ! 7 = 0"
    by simp_all
  with col [of 3] col [of 4] col [of 6] col [of 7]
  have "map (\<lambda>j. cells (frames_of (replay_events events) ! 3) ! j) [3, 4, 6, 7]
          = [(24, 190, 24), (255, 0, 0), (255, 0, 0), (25, 25, 127)]"
    by simp
  with run c show ?thesis unfolding events_def by simp
qed

text \<open>
  The claim as the specification words it fails on the single event \<open>+ 0 10\<close>: unit 0
  then has the counter 1, which the specification calls Used (dark blue), and the frame
  shows it in the colour \<open>free_colour\<close>, green.
\<close>

theorem unit_colour_counterexample:
  "parse_events ''+ 0 10'' = [(''+'', 0, 10)]
   \<and> counters_after [(''+'', 0, 10)] 0 ! 0 = 1
   \<and> cells (frames_of (replay_iterate ''+ 0 10'') ! 0) ! 0 = (24, 190, 24)
   \<and> cells (frames_of (replay_iterate ''+ 0 10'') ! 0) ! 0 \<noteq> used_colour"
  by code_simp

section \<open>The description text\<close>

text \<open>
  C4, as the code has it. The description text of the frame of an event is the label,
  a space, \<open>0x\<close> and the offset in lower-case hexadecimal zero-padded to eight
  characters, \<open> : \<close> and the size in decimal. The label is \<open>free \<close> (five characters,
  the last a space) for a \<open>+\<close> event and \<open>alloc\<close> for any other, that is for a \<open>-\<close>
  event. The decimal text reads back as the size; for an offset from 0 up to
  \<open>2^32 - 1\<close> the hexadecimal text has exactly eight digits and reads back as the offset.
\<close>

theorem description_text_of_event:
  assumes "replay_events events = Inr frames"
    and "k < length frames"
  shows "description_text (frames ! k) =
           (if ev_mode (events ! k) = ''+'' then ''free '' else ''alloc'')
           @ '' 0x'' @ format_08x (ev_offset (events ! k))
           @ '' : '' @ py_str (ev_size (events ! k))
         \<and> py_int (py_str (ev_size (events ! k))) = ev_size (events ! k)
         \<and> (0 \<le> ev_offset (events ! k) \<and> ev_offset (events ! k) < 2 ^ 32 \<longrightarrow>
              length (format_08x (ev_offset (events ! k))) = 8
              \<and> int (hex_value (format_08x (ev_offset (events ! k)))) = ev_offset (events ! k))"
proof (intro conjI impI)
  from replay_events_nth [OF assms(1)] assms(2)
  obtain w where "frames ! k = render_frame (allocations_size_of events) w
                 (height (allocations_size_of events) w) k
                 (counters_after events k) (events ! k)"
    by auto
  then show "description_text (frames ! k) =
           (if ev_mode (events ! k) = ''+'' then ''free '' else ''alloc'')
           @ '' 0x'' @ format_08x (ev_offset (events ! k))
           @ '' : '' @ py_str (ev_size (events ! k))"
    by (simp add: render_frame_def operation_text_def ev_mode_def ev_offset_def ev_size_def
             split: prod.splits)
next
  show "py_int (py_str (ev_size (events ! k))) = ev_size (events ! k)"
    by (rule py_int_py_str)
next
  assume "0 \<le> ev_offset (events ! k) \<and> ev_offset (events ! k) < 2 ^ 32"
  then show "length (format_08x (ev_offset (events ! k))) = 8"
    by (intro format_08x_length) simp_all
next
  assume "0 \<le> ev_offset (events ! k) \<and> ev_offset (events ! k) < 2 ^ 32"
  then show "int (hex_value (format_08x (ev_offset (events ! k)))) = ev_offset (events ! k)"
    by (intro format_08x_value) simp
qed

theorem description_text_of_event_witness:
  "replay_events [(''+'', 4096, 10), (''-'', 4101, 2)]
     = Inr (frames_of (replay_events [(''+'', 4096, 10), (''-'', 4101, 2)]))
   \<and> (1::nat) < length (frames_of (replay_events [(''+'', 4096, 10), (''-'', 4101, 2)]))
   \<and> description_text (frames_of (replay_events [(''+'', 4096, 10), (''-'', 4101, 2)]) ! 1)
       = ''alloc 0x00001005 : 2''
   \<and> (0::int) \<le> 4101 \<and> (4101::int) < 2 ^ 32
   \<and> length (format_08x 4101) = 8 \<and> int (hex_value (format_08x 4101)) = 4101
   \<and> py_int (py_str 2) = 2"
proof -
  define events :: "event list" where "events = [(''+'', 4096, 10), (''-'', 4101, 2)]"
  have n: "allocations_size_of events = 10"
    by (simp add: events_def allocations_size_of_def calc_bounds_def)
  have run: "replay_events events = Inr (frames_of (replay_events events))"
    using replay_events_frames [of events] by (auto simp: n frames_of_def)
  have len: "1 < length (frames_of (replay_events events))"
    using replay_events_nth(1) [OF run] by (simp add: events_def)
  have hex: "format_08x 4101 = ''00001005''" by code_simp
  have dec: "py_str 2 = ''2''" by code_simp
  have ev: "ev_mode (events ! 1) = ''-''" "ev_offset (events ! 1) = 4101"
    "ev_size (events ! 1) = 2"
    by (simp_all add: events_def ev_mode_def ev_offset_def ev_size_def)
  note inst = description_text_of_event [OF run len, unfolded ev]
  from inst have a: "description_text (frames_of (replay_events events) ! 1)
                      = ''alloc 0x00001005 : 2''"
    by (simp add: hex dec)
  from inst have b: "py_int (py_str 2) = 2" by simp
  have rng: "(0::int) \<le> 4101 \<and> (4101::int) < 2 ^ 32" by simp
  from inst [THEN conjunct2, THEN conjunct2, THEN mp, OF rng]
  have c: "length (format_08x 4101) = 8 \<and> int (hex_value (format_08x 4101)) = 4101" .
  from run len a b c show ?thesis unfolding events_def by simp
qed

text \<open>
  The claim as the specification words it fails on the single event \<open>+ 0 10\<close>: its frame
  is described with the label \<open>free \<close>, not \<open>alloc\<close>.
\<close>

theorem description_text_counterexample:
  "parse_events ''+ 0 10'' = [(''+'', 0, 10)]
   \<and> description_text (frames_of (replay_iterate ''+ 0 10'') ! 0) = ''free  0x00000000 : 10''"
  by code_simp

section \<open>The number of frames\<close>




section \<open>The zero-size address range\<close>

lemma grid_cells_zero:
  assumes "allocations_size_of events = 0"
  shows "grid_cells events = 0"
proof -
  have "width 0 = Inr 32" by (rule width_small) simp_all
  then show ?thesis
    by (simp add: grid_cells_def assms height_def py_ceil_div_code)
qed

text \<open>
  C3, as the code has it. When \<open>allocations_size = 0\<close> nothing is short-circuited: the
  loop runs as for any other size and yields one frame per event. The grid has no cell,
  \<open>is_free.sum()\<close> is 0, and the division \<open>is_free.sum() / allocations_size\<close> is evaluated
  with the divisor 0; as its dividend is a numpy integer it gives \<open>nan\<close> and does not
  raise.
\<close>

theorem zero_size_not_guarded:
  assumes "events \<noteq> []"
    and "allocations_size_of events = 0"
  shows "\<exists>frames. replay_events events = Inr frames
           \<and> length frames = length events
           \<and> (\<forall>k<length frames.
                cells (frames ! k) = []
                \<and> percent_free (frames ! k) = np_true_divide 0 0
                \<and> percent_free (frames ! k) = NaN)"
proof -
  from replay_events_frames [of events] assms(2)
  obtain frames where run: "replay_events events = Inr frames" by auto
  have len: "length frames = length events" by (rule replay_events_nth(1) [OF run])
  have "cells (frames ! k) = [] \<and> percent_free (frames ! k) = np_true_divide 0 0
        \<and> percent_free (frames ! k) = NaN"
    if "k < length frames" for k
  proof -
    from replay_events_nth(2) [OF run, of k] that len
    obtain w where fr: "frames ! k = render_frame (allocations_size_of events) w
                 (height (allocations_size_of events) w) k
                 (counters_after events k) (events ! k)"
      by auto
    have "counters_after events k = []"
      unfolding length_0_conv [symmetric] by (simp add: grid_cells_zero [OF assms(2)])
    then show ?thesis
      by (simp add: fr render_frame_def assms(2) is_free_sum_def is_free_def
               np_true_divide_def render_cells_def mask_assign_def)
  qed
  with run len show ?thesis by blast
qed

theorem zero_size_not_guarded_witness:
  "[(''+'', 7, 0), (''-'', 7, 0)] \<noteq> ([] :: event list)
   \<and> allocations_size_of [(''+'', 7, 0), (''-'', 7, 0)] = 0
   \<and> length (frames_of (replay_events [(''+'', 7, 0), (''-'', 7, 0)])) = 2
   \<and> map percent_free (frames_of (replay_events [(''+'', 7, 0), (''-'', 7, 0)])) = [NaN, NaN]"
proof -
  define events :: "event list" where "events = [(''+'', 7, 0), (''-'', 7, 0)]"
  have ne: "events \<noteq> []" by (simp add: events_def)
  have n: "allocations_size_of events = 0"
    by (simp add: events_def allocations_size_of_def calc_bounds_def)
  from zero_size_not_guarded [OF ne n]
  obtain frames where run: "replay_events events = Inr frames"
    and len: "length frames = length events"
    and nan: "\<forall>k<length frames. percent_free (frames ! k) = NaN"
    by blast
  from len have len2: "length frames = 2" by (simp add: events_def)
  with nan have "map percent_free frames = [NaN, NaN]"
    by (auto simp: list_eq_iff_nth_eq less_Suc_eq numeral_2_eq_2)
  with run len2 ne n show ?thesis
    unfolding events_def by (simp add: frames_of_def)
qed

text \<open>
  The claim as the specification words it fails on the text \<open>+ 0 0\<close>: the result is not
  empty, and the free fraction of its frame is the \<open>nan\<close> of the division by zero.
\<close>

theorem zero_size_counterexample:
  "parse_events ''+ 0 0'' = [(''+'', 0, 0)]
   \<and> allocations_size_of [(''+'', 0, 0)] = 0
   \<and> replay_iterate ''+ 0 0''
       = Inr [\<lparr> cells = [], canvas_size = (340, 64), event_id_text = ''Event ID: 0'',
                percent_free = np_true_divide 0 0,
                description_text = ''free  0x00000000 : 0'' \<rparr>]
   \<and> np_true_divide 0 0 = NaN"
  by code_simp

section \<open>The index range of an event\<close>

lemma event_range_in_bounds:
  assumes "e \<in> set events"
  shows "0 \<le> ev_offset e - min_offset_of events"
    and "ev_offset e + ev_size e - min_offset_of events \<le> allocations_size_of events"
proof -
  from assms have ne: "events \<noteq> []" by auto
  from calc_bounds_Min_Max [OF ne]
  have mn: "min_offset_of events = Min (set (map ev_offset events))"
    and sz: "allocations_size_of events =
             Max (set (map (\<lambda>e. ev_offset e + ev_size e) events)) - min_offset_of events"
    by (simp_all add: min_offset_of_def allocations_size_of_def)
  have "Min (set (map ev_offset events)) \<le> ev_offset e"
    using assms by (intro Min_le) simp_all
  then show "0 \<le> ev_offset e - min_offset_of events" by (simp add: mn)
  have "ev_offset e + ev_size e \<le> Max (set (map (\<lambda>e. ev_offset e + ev_size e) events))"
    using assms by (intro Max_ge) simp_all
  then show "ev_offset e + ev_size e - min_offset_of events \<le> allocations_size_of events"
    by (simp add: sz)
qed

lemma slice_index_inside:
  "0 \<le> i \<Longrightarrow> i \<le> int len \<Longrightarrow> slice_index len i = nat i"
  by (simp add: slice_index_def)

lemma apply_event_nth:
  assumes "j < length a"
  shows "apply_event b a e ! j =
           (if j \<in> slice_indices (length a) (ev_offset e - b) (ev_offset e + ev_size e - b)
            then a ! j + (if ev_mode e = ''+'' then 1 else - 1) else a ! j)"
  using assms
  by (cases e)
     (simp add: apply_event_def nth_slice_add slice_indices_def ev_offset_def ev_size_def
                ev_mode_def)

lemma event_slice_inside:
  assumes "e \<in> set events"
    and "0 \<le> ev_size e"
  shows "0 \<le> ev_offset e - min_offset_of events
         \<and> ev_offset e - min_offset_of events \<le> ev_offset e + ev_size e - min_offset_of events
         \<and> ev_offset e + ev_size e - min_offset_of events \<le> allocations_size_of events
         \<and> allocations_size_of events \<le> int (grid_cells events)
         \<and> slice_indices (grid_cells events)
              (ev_offset e - min_offset_of events)
              (ev_offset e + ev_size e - min_offset_of events)
            = {nat (ev_offset e - min_offset_of events)
                 ..< nat (ev_offset e + ev_size e - min_offset_of events)}
         \<and> slice_indices (grid_cells events)
              (ev_offset e - min_offset_of events)
              (ev_offset e + ev_size e - min_offset_of events)
            \<subseteq> {0 ..< nat (allocations_size_of events)}
         \<and> (\<forall>a j. length a = grid_cells events \<and> j < length a
                \<and> j \<notin> {nat (ev_offset e - min_offset_of events)
                          ..< nat (ev_offset e + ev_size e - min_offset_of events)}
              \<longrightarrow> apply_event (min_offset_of events) a e ! j = a ! j)"
proof -
  define lo where "lo = ev_offset e - min_offset_of events"
  define hi where "hi = ev_offset e + ev_size e - min_offset_of events"
  define n where "n = allocations_size_of events"
  have lo: "0 \<le> lo" and hi: "hi \<le> n"
    using event_range_in_bounds [OF assms(1)] by (simp_all add: lo_def hi_def n_def)
  have lohi: "lo \<le> hi" using assms(2) by (simp add: lo_def hi_def)
  with lo hi have "0 \<le> n" by simp
  then obtain w where "width n = Inr w" by (auto simp: width_def)
  then have cover: "n \<le> int (grid_cells events)"
    unfolding n_def by (rule grid_cells_eq(2))
  have "slice_index (grid_cells events) lo = nat lo"
    using lo lohi hi cover by (intro slice_index_inside) simp_all
  moreover have "slice_index (grid_cells events) hi = nat hi"
    using lo lohi hi cover by (intro slice_index_inside) simp_all
  ultimately have eq: "slice_indices (grid_cells events) lo hi = {nat lo ..< nat hi}"
    by (simp add: slice_indices_def)
  have sub: "{nat lo ..< nat hi} \<subseteq> {0 ..< nat n}" using hi by auto
  have "apply_event (min_offset_of events) a e ! j = a ! j"
    if "length a = grid_cells events" and "j < length a" and "j \<notin> {nat lo ..< nat hi}"
    for a j
    using that eq by (simp add: apply_event_nth lo_def hi_def)
  with sub eq lo lohi hi cover show ?thesis
    unfolding lo_def hi_def n_def by simp
qed

text \<open>
  C5, as the code has it. In a complete run, the index range
  \<open>[offset - min_offset, offset + size - min_offset)\<close> of every event whose size is not
  negative lies within \<open>[0, allocations_size)\<close>, and the slice that line 87 updates is
  exactly that range: no counter outside the address range is touched.
\<close>

theorem event_range_within_array:
  assumes "e \<in> set events"
    and "0 \<le> ev_size e"
  shows "0 \<le> ev_offset e - min_offset_of events
         \<and> ev_offset e - min_offset_of events \<le> ev_offset e + ev_size e - min_offset_of events
         \<and> ev_offset e + ev_size e - min_offset_of events \<le> allocations_size_of events
         \<and> allocations_size_of events \<le> int (grid_cells events)
         \<and> slice_indices (grid_cells events)
              (ev_offset e - min_offset_of events)
              (ev_offset e + ev_size e - min_offset_of events)
            = {nat (ev_offset e - min_offset_of events)
                 ..< nat (ev_offset e + ev_size e - min_offset_of events)}
         \<and> slice_indices (grid_cells events)
              (ev_offset e - min_offset_of events)
              (ev_offset e + ev_size e - min_offset_of events)
            \<subseteq> {0 ..< nat (allocations_size_of events)}
         \<and> (\<forall>a j. length a = grid_cells events \<and> j < length a
                \<and> j \<notin> {nat (ev_offset e - min_offset_of events)
                          ..< nat (ev_offset e + ev_size e - min_offset_of events)}
              \<longrightarrow> apply_event (min_offset_of events) a e ! j = a ! j)"
  using assms by (rule event_slice_inside)

theorem event_range_within_array_witness:
  "(''-'', 22, 3) \<in> set [(''+'', 20, 10), (''-'', 22, 3), (''+'', 25, - 4)]
   \<and> (0::int) \<le> ev_size (''-'', 22, 3)
   \<and> min_offset_of [(''+'', 20, 10), (''-'', 22, 3), (''+'', 25, - 4)] = 20
   \<and> allocations_size_of [(''+'', 20, 10), (''-'', 22, 3), (''+'', 25, - 4)] = 10
   \<and> slice_indices (grid_cells [(''+'', 20, 10), (''-'', 22, 3), (''+'', 25, - 4)]) 2 5
       = {2 ..< 5}
   \<and> slice_indices (grid_cells [(''+'', 20, 10), (''-'', 22, 3), (''+'', 25, - 4)]) 2 5
       \<subseteq> {0 ..< 10}"
proof -
  define events :: "event list"
    where "events = [(''+'', 20, 10), (''-'', 22, 3), (''+'', 25, - 4)]"
  have mem: "(''-'', 22, 3) \<in> set events" by (simp add: events_def)
  have sz: "0 \<le> ev_size (''-'', 22, 3)" by (simp add: ev_size_def)
  have m: "min_offset_of events = 20"
    by (simp add: events_def min_offset_of_def calc_bounds_def)
  have n: "allocations_size_of events = 10"
    by (simp add: events_def allocations_size_of_def calc_bounds_def)
  from event_range_within_array [OF mem sz]
  have "slice_indices (grid_cells events) 2 5 = {2 ..< 5}
        \<and> slice_indices (grid_cells events) 2 5 \<subseteq> {0 ..< 10}"
    by (simp add: m n ev_offset_def ev_size_def)
  with mem sz m n show ?thesis unfolding events_def by simp
qed

text \<open>
  The claim as the specification words it fails on the events \<open>(+, 0, 10), (+, 5, -6)\<close>:
  the second event has the index range \<open>[5, -1)\<close>, whose end is negative; the slice counts
  it from the end of the 32-cell array and updates the cells 5 to 30, among them cell 10,
  which is outside the address range of size 10.
\<close>

theorem event_range_counterexample:
  "parse_events (''+ 0 10'' @ [newline] @ ''+ 5 -6'') = [(''+'', 0, 10), (''+'', 5, - 6)]
   \<and> length (frames_of (replay_events [(''+'', 0, 10), (''+'', 5, - 6)])) = 2
   \<and> min_offset_of [(''+'', 0, 10), (''+'', 5, - 6)] = 0
   \<and> allocations_size_of [(''+'', 0, 10), (''+'', 5, - 6)] = 10
   \<and> grid_cells [(''+'', 0, 10), (''+'', 5, - 6)] = 32
   \<and> ev_offset (''+'', 5, - 6) + ev_size (''+'', 5, - 6) - 0 = - 1
   \<and> slice_indices 32 (5 - 0) (5 + (- 6) - 0) = {5 ..< 31}
   \<and> 10 \<in> slice_indices 32 (5 - 0) (5 + (- 6) - 0)
   \<and> counters_after [(''+'', 0, 10), (''+'', 5, - 6)] 0 ! 10 = 0
   \<and> counters_after [(''+'', 0, 10), (''+'', 5, - 6)] 1 ! 10 = 1"
proof -
  have a: "min_offset_of [(''+'', 0, 10), (''+'', 5, - 6)] = 0"
    by (simp add: min_offset_of_def calc_bounds_def)
  have b: "allocations_size_of [(''+'', 0, 10), (''+'', 5, - 6)] = 10"
    by (simp add: allocations_size_of_def calc_bounds_def)
  have c: "grid_cells [(''+'', 0, 10), (''+'', 5, - 6)] = 32" by code_simp
  have d: "slice_indices 32 (5 - 0) (5 + (- 6) - 0) = {5 ..< 31}"
    by (simp add: slice_indices_def slice_index_def)
  have e: "counters_after [(''+'', 0, 10), (''+'', 5, - 6)] 0 ! 10 = 0" by code_simp
  have f: "counters_after [(''+'', 0, 10), (''+'', 5, - 6)] 1 ! 10 = 1" by code_simp
  have p: "parse_events (''+ 0 10'' @ [newline] @ ''+ 5 -6'')
             = [(''+'', 0, 10), (''+'', 5, - 6)]"
    by code_simp
  have "\<exists>frames. replay_events [(''+'', 0, 10), (''+'', 5, - 6)] = Inr frames"
    using replay_events_frames [of "[(''+'', 0, 10), (''+'', 5, - 6)]"] by (auto simp: b)
  then obtain frames where run: "replay_events [(''+'', 0, 10), (''+'', 5, - 6)] = Inr frames"
    by blast
  from replay_events_nth(1) [OF run] run
  have g: "length (frames_of (replay_events [(''+'', 0, 10), (''+'', 5, - 6)])) = 2"
    by (simp add: frames_of_def)
  from a b c d e f g p show ?thesis by (simp add: ev_offset_def ev_size_def)
qed

section \<open>The free fraction\<close>

lemma padding_untouched:
  assumes "set es \<subseteq> set events"
    and "\<forall>e\<in>set es. 0 \<le> ev_size e"
    and "length a = grid_cells events"
    and "nat (allocations_size_of events) \<le> j"
    and "j < grid_cells events"
  shows "foldl (apply_event (min_offset_of events)) a es ! j = a ! j"
  using assms
proof (induction es arbitrary: a)
  case Nil
  then show ?case by simp
next
  case (Cons e es)
  have e: "e \<in> set events" "0 \<le> ev_size e" using Cons.prems(1,2) by simp_all
  from event_slice_inside [OF e]
  have hi: "ev_offset e + ev_size e - min_offset_of events \<le> allocations_size_of events"
    and upd: "\<And>a j. length a = grid_cells events \<Longrightarrow> j < length a \<Longrightarrow>
              j \<notin> {nat (ev_offset e - min_offset_of events)
                     ..< nat (ev_offset e + ev_size e - min_offset_of events)} \<Longrightarrow>
              apply_event (min_offset_of events) a e ! j = a ! j"
    by blast+
  have "j \<notin> {nat (ev_offset e - min_offset_of events)
               ..< nat (ev_offset e + ev_size e - min_offset_of events)}"
    using nat_mono [OF hi] Cons.prems(4) by simp
  with upd [of a j] Cons.prems(3,5)
  have step: "apply_event (min_offset_of events) a e ! j = a ! j" by simp
  have "foldl (apply_event (min_offset_of events)) (apply_event (min_offset_of events) a e) es ! j
          = apply_event (min_offset_of events) a e ! j"
    using Cons.prems by (intro Cons.IH) simp_all
  with step show ?case by simp
qed

lemma padding_counters_zero:
  assumes "\<forall>e\<in>set events. 0 \<le> ev_size e"
    and "nat (allocations_size_of events) \<le> j"
    and "j < grid_cells events"
  shows "counters_after events k ! j = 0"
proof -
  have "set (take (Suc k) events) \<subseteq> set events" by (rule set_take_subset)
  moreover from this assms(1) have "\<forall>e\<in>set (take (Suc k) events). 0 \<le> ev_size e" by blast
  ultimately have "counters_after events k ! j = replicate (grid_cells events) 0 ! j"
    unfolding counters_after_def using assms(2,3) by (intro padding_untouched) simp_all
  then show ?thesis using assms(3) by simp
qed

lemma is_free_sum_filter:
  "is_free_sum a = int (length (filter (\<lambda>c. c = 1) a))"
proof -
  have "length (filter id (map (\<lambda>c. c = 1) a)) = length (filter (\<lambda>c. c = 1) a)"
    by (induction a) simp_all
  then show ?thesis by (simp add: is_free_sum_def is_free_def)
qed

lemma filter_take_when_rest_zero:
  fixes a :: "int list"
  assumes "\<forall>j. n \<le> j \<and> j < length a \<longrightarrow> a ! j = 0"
  shows "filter (\<lambda>c. c = 1) a = filter (\<lambda>c. c = 1) (take n a)"
proof -
  have "filter (\<lambda>c. c = 1) (drop n a) = []"
  proof -
    have "c \<noteq> 1" if "c \<in> set (drop n a)" for c
    proof -
      from that obtain i where "i < length (drop n a)" and "c = drop n a ! i"
        by (auto simp: in_set_conv_nth)
      then have "c = a ! (n + i)" and "n + i < length a" by simp_all
      with assms show ?thesis by simp
    qed
    then show ?thesis by (simp add: filter_empty_conv)
  qed
  then have "filter (\<lambda>c. c = 1) (take n a @ drop n a) = filter (\<lambda>c. c = 1) (take n a)"
    by (simp only: filter_append append_Nil2)
  then show ?thesis by simp
qed

lemma percent_free_of_frame:
  assumes "replay_events events = Inr frames"
    and "k < length frames"
  shows "percent_free (frames ! k) =
           np_true_divide (int (length (filter (\<lambda>c. c = 1) (counters_after events k))))
                          (allocations_size_of events)"
proof -
  from replay_events_nth [OF assms(1)] assms(2)
  obtain w where "frames ! k = render_frame (allocations_size_of events) w
                 (height (allocations_size_of events) w) k
                 (counters_after events k) (events ! k)"
    by auto
  then show ?thesis by (simp add: render_frame_def is_free_sum_filter)
qed

text \<open>
  C2, as the code has it. The free fraction of a frame is the number of grid units whose
  counter is 1 (the units of the mask \<open>is_free\<close>, painted green) divided by
  \<open>allocations_size\<close>. When no event has a negative size the padding cells keep the
  counter 0, so the units counted are units of the address range, and the fraction is
  that of the non-padding units whose counter is 1.
\<close>

theorem free_fraction:
  assumes "replay_events events = Inr frames"
    and "k < length frames"
  shows "percent_free (frames ! k) =
           np_true_divide (int (length (filter (\<lambda>c. c = 1) (counters_after events k))))
                          (allocations_size_of events)
         \<and> ((\<forall>e\<in>set events. 0 \<le> ev_size e) \<longrightarrow>
              percent_free (frames ! k) =
                np_true_divide
                  (int (length (filter (\<lambda>c. c = 1)
                     (take (nat (allocations_size_of events)) (counters_after events k)))))
                  (allocations_size_of events))"
proof (intro conjI impI)
  show all: "percent_free (frames ! k) =
           np_true_divide (int (length (filter (\<lambda>c. c = 1) (counters_after events k))))
                          (allocations_size_of events)"
    using assms by (rule percent_free_of_frame)
  assume sizes: "\<forall>e\<in>set events. 0 \<le> ev_size e"
  have "\<forall>j. nat (allocations_size_of events) \<le> j \<and> j < length (counters_after events k)
          \<longrightarrow> counters_after events k ! j = 0"
    using padding_counters_zero [OF sizes] by simp
  from filter_take_when_rest_zero [OF this] all
  show "percent_free (frames ! k) =
          np_true_divide
            (int (length (filter (\<lambda>c. c = 1)
               (take (nat (allocations_size_of events)) (counters_after events k)))))
            (allocations_size_of events)"
    by simp
qed

theorem free_fraction_witness:
  "replay_events [(''+'', 0, 10), (''-'', 2, 3)]
     = Inr (frames_of (replay_events [(''+'', 0, 10), (''-'', 2, 3)]))
   \<and> (1::nat) < length (frames_of (replay_events [(''+'', 0, 10), (''-'', 2, 3)]))
   \<and> (0::int) \<le> ev_size (''+'', 0, 10) \<and> (0::int) \<le> ev_size (''-'', 2, 3)
   \<and> take 10 (counters_after [(''+'', 0, 10), (''-'', 2, 3)] 1) = [1, 1, 0, 0, 0, 1, 1, 1, 1, 1]
   \<and> percent_free (frames_of (replay_events [(''+'', 0, 10), (''-'', 2, 3)]) ! 1)
       = Finite (7 / 10)"
proof -
  define events :: "event list" where "events = [(''+'', 0, 10), (''-'', 2, 3)]"
  have n: "allocations_size_of events = 10"
    by (simp add: events_def allocations_size_of_def calc_bounds_def)
  have run: "replay_events events = Inr (frames_of (replay_events events))"
    using replay_events_frames [of events] by (auto simp: n frames_of_def)
  have len: "1 < length (frames_of (replay_events events))"
    using replay_events_nth(1) [OF run] by (simp add: events_def)
  have sizes: "\<forall>e\<in>set events. 0 \<le> ev_size e" by (simp add: events_def ev_size_def)
  have c: "take 10 (counters_after events 1) = [1, 1, 0, 0, 0, 1, 1, 1, 1, 1]"
    unfolding events_def by code_simp
  from c have "take 10 (counters_after events (Suc 0)) = [1, 1, 0, 0, 0, 1, 1, 1, 1, 1]"
    by simp
  with free_fraction [OF run len, THEN conjunct2, THEN mp, OF sizes]
  have "percent_free (frames_of (replay_events events) ! 1) = Finite (7 / 10)"
    by (simp add: n np_true_divide_def)
  with run len c show ?thesis unfolding events_def by (simp add: ev_size_def)
qed

text \<open>
  The claim as the specification words it fails on the single event \<open>+ 0 10\<close>: the ten
  units then have the counter 1 and the frame reports the free fraction 1, not 0.
\<close>

theorem free_fraction_counterexample:
  "parse_events ''+ 0 10'' = [(''+'', 0, 10)]
   \<and> allocations_size_of [(''+'', 0, 10)] = 10
   \<and> percent_free (frames_of (replay_iterate ''+ 0 10'') ! 0) = Finite 1
   \<and> percent_free (frames_of (replay_iterate ''+ 0 10'') ! 0) \<noteq> Finite 0"
proof -
  have p: "parse_events ''+ 0 10'' = [(''+'', 0, 10)]" by code_simp
  have n: "allocations_size_of [(''+'', 0, 10)] = 10"
    by (simp add: allocations_size_of_def calc_bounds_def)
  have run: "replay_events [(''+'', 0, 10)] = Inr (frames_of (replay_events [(''+'', 0, 10)]))"
    using replay_events_frames [of "[(''+'', 0, 10)]"] by (auto simp: n frames_of_def)
  have len: "0 < length (frames_of (replay_events [(''+'', 0, 10)]))"
    using replay_events_nth(1) [OF run] by simp
  have c: "filter (\<lambda>c. c = 1) (counters_after [(''+'', 0, 10)] 0) = replicate 10 1"
    by code_simp
  from percent_free_of_frame [OF run len]
  have "percent_free (frames_of (replay_events [(''+'', 0, 10)]) ! 0) = Finite 1"
    by (simp add: n c np_true_divide_def)
  with p n show ?thesis by (simp add: replay_iterate_def)
qed


end
